theory Spec2Isabelle
  imports Main
begin

section \<open>Request executor: \<open>LLMClient.chat_completion\<close>\<close>

text \<open>
  The backend is the library call \<open>completion(**kwargs)\<close>. It is a parameter of the
  model: for the attempt with index \<open>k\<close> it either raises (\<open>Inl e\<close>) or answers.
  Without streaming the answer is \<open>response.choices[0].message.content\<close>; an exception
  raised while reading that field is caught by the same \<open>except Exception\<close> and is part
  of \<open>Inl\<close>. With streaming the answer is the sequence of chunks the iterator yields,
  followed by an exception if the stream breaks before it is exhausted.
  A chunk is the list of its choices, each given by its \<open>delta.content\<close>
  (\<open>None\<close> when the field is absent).
  The calls to \<open>print\<close> are not modelled.
\<close>

type_synonym chunk = "string option list"

record 'e backend =
  complete :: "nat \<Rightarrow> 'e + string"
  complete_stream :: "nat \<Rightarrow> 'e + (chunk list \<times> 'e option)"

text \<open>
  What a call can end with: the last exception of the backend, raised again by
  \<open>raise last_exception\<close>, or the \<open>TypeError\<close> of Python when \<open>last_exception\<close> is
  still \<open>None\<close> at that statement.
\<close>

datatype 'e exec_error = BackendError 'e | RaiseNoneTypeError

text \<open>The effects of one call: the number of backend calls and the arguments of \<open>time.sleep\<close>.\<close>

record exec_log =
  attempts :: nat
  waits :: "int list"

definition no_log :: exec_log where
  "no_log = \<lparr>attempts = 0, waits = []\<rparr>"

text \<open>The loop of \<open>_handle_streaming_response\<close> over the chunks, with \<open>full_content\<close>.\<close>

fun collect_chunks :: "string list \<Rightarrow> chunk list \<Rightarrow> string list" where
  "collect_chunks full_content [] = full_content"
| "collect_chunks full_content (choices # stream) =
     (if length choices > 0 \<and> hd choices \<noteq> None
      then collect_chunks (full_content @ [the (hd choices)]) stream
      else collect_chunks full_content stream)"

definition handle_streaming_response :: "'e backend \<Rightarrow> nat \<Rightarrow> 'e + string" where
  "handle_streaming_response b k =
     (case complete_stream b k of
        Inl e \<Rightarrow> Inl e
      | Inr (stream, broken) \<Rightarrow>
          (case broken of
             Some e \<Rightarrow> Inl e
           | None \<Rightarrow> Inr (concat (collect_chunks [] stream))))"

text \<open>The body of the \<open>try\<close> block of one attempt.\<close>

definition attempt_call :: "'e backend \<Rightarrow> bool \<Rightarrow> nat \<Rightarrow> 'e + string" where
  "attempt_call b use_streaming k =
     (if use_streaming then handle_streaming_response b k else complete b k)"

text \<open>
  The \<open>for attempt in range(max_retries)\<close> loop and the final \<open>raise\<close>. \<open>attempt\<close> is the
  loop variable, \<open>last_exception\<close> the variable of that name.
\<close>

function retry_loop ::
  "'e backend \<Rightarrow> bool \<Rightarrow> int \<Rightarrow> int \<Rightarrow> 'e option \<Rightarrow> exec_log
     \<Rightarrow> ('e exec_error + string) \<times> exec_log" where
  "retry_loop b use_streaming max_retries attempt last_exception lg =
     (if attempt < max_retries then
        (case attempt_call b use_streaming (nat attempt) of
           Inr content \<Rightarrow> (Inr content, lg\<lparr>attempts := attempts lg + 1\<rparr>)
         | Inl e \<Rightarrow>
             (if attempt < max_retries - 1
              then retry_loop b use_streaming max_retries (attempt + 1) (Some e)
                     (lg\<lparr>attempts := attempts lg + 1,
                         waits := waits lg @ [2 ^ nat attempt]\<rparr>)
              else retry_loop b use_streaming max_retries (attempt + 1) (Some e)
                     (lg\<lparr>attempts := attempts lg + 1\<rparr>)))
      else
        (case last_exception of
           None \<Rightarrow> (Inl RaiseNoneTypeError, lg)
         | Some e \<Rightarrow> (Inl (BackendError e), lg)))"
  by pat_completeness auto
termination
  by (relation "measure (\<lambda>(b, s, m, a, l, g). nat (m - a))") auto

definition chat_completion ::
  "'e backend \<Rightarrow> bool \<Rightarrow> int \<Rightarrow> ('e exec_error + string) \<times> exec_log" where
  "chat_completion b use_streaming max_retries =
     retry_loop b use_streaming max_retries 0 None no_log"

section \<open>Texts\<close>

text \<open>
  A text is a list of 8-bit characters: the model covers the Python strings whose code
  points are below 256, one \<open>char\<close> per code point. On these, \<open>str.lower\<close> keeps the
  length and works character by character, and the whitespace of \<open>str.strip\<close> and of
  \<open>\s\<close> in a pattern is the set below.
\<close>

definition isspace :: "char \<Rightarrow> bool" where
  "isspace c \<longleftrightarrow>
     c \<in> {CHR 0x09, CHR 0x0A, CHR 0x0B, CHR 0x0C, CHR 0x0D, CHR 0x1C, CHR 0x1D, CHR 0x1E,
          CHR 0x1F, CHR 0x20, CHR 0x85, CHR 0xA0}"

definition strip :: "string \<Rightarrow> string" where
  "strip s = rev (dropWhile isspace (rev (dropWhile isspace s)))"

definition lower_char :: "char \<Rightarrow> char" where
  "lower_char c =
     (let n = (of_char c :: nat)
      in if (65 \<le> n \<and> n \<le> 90) \<or> (192 \<le> n \<and> n \<le> 222 \<and> n \<noteq> 215)
         then char_of (n + 32) else c)"

definition lower :: "string \<Rightarrow> string" where
  "lower s = map lower_char s"

definition startswith :: "string \<Rightarrow> string \<Rightarrow> bool" where
  "startswith s prefix \<longleftrightarrow> take (length prefix) s = prefix"

text \<open>\<open>find_at sub s i\<close> searches \<open>sub\<close> in \<open>s\<close>, whose first character has index \<open>i\<close>.\<close>

fun find_at :: "string \<Rightarrow> string \<Rightarrow> nat \<Rightarrow> nat option" where
  "find_at sub [] i = (if sub = [] then Some i else None)"
| "find_at sub (c # cs) i =
     (if startswith (c # cs) sub then Some i else find_at sub cs (i + 1))"

text \<open>\<open>text.find(sub, start)\<close>; \<open>None\<close> is the result \<open>-1\<close>.\<close>

definition find_from :: "string \<Rightarrow> string \<Rightarrow> nat \<Rightarrow> nat option" where
  "find_from text sub start =
     (if length text < start then None else find_at sub (drop start text) start)"

definition contains :: "string \<Rightarrow> string \<Rightarrow> bool" where
  "contains text sub \<longleftrightarrow> find_from text sub 0 \<noteq> None"

text \<open>\<open>text[a:b]\<close> for indices that are not negative.\<close>

definition slice :: "string \<Rightarrow> nat \<Rightarrow> nat \<Rightarrow> string" where
  "slice text a b = take (b - a) (drop a text)"

section \<open>Lenient cleaner: \<open>LLMClient._clean_json_string\<close>\<close>

text \<open>
  The three calls of \<open>re.sub\<close>, each as the left-to-right scan for the leftmost matches
  that do not overlap.
\<close>

definition is_closer :: "char \<Rightarrow> bool" where
  "is_closer c \<longleftrightarrow> c = CHR ''}'' \<or> c = CHR '']''"

text \<open>
  Whether \<open>\s*[}\]]\<close> matches at the start of \<open>cs\<close>: the greedy \<open>\s*\<close> takes all the
  whitespace, and giving some of it back cannot help, since no closer is whitespace.
\<close>

definition closer_follows :: "string \<Rightarrow> bool" where
  "closer_follows cs =
     (case dropWhile isspace cs of [] \<Rightarrow> False | d # _ \<Rightarrow> is_closer d)"

text \<open>
  \<open>re.sub(r',(\s*[}\]])', r'\1', json_str)\<close>: a match is replaced by its group, the
  whitespace and the closer, and the scan goes on behind the closer.
\<close>

function sub_trailing_comma :: "string \<Rightarrow> string" where
  "sub_trailing_comma [] = []"
| "sub_trailing_comma (c # cs) =
     (if c = CHR '','' \<and> closer_follows cs
      then takeWhile isspace cs @ [hd (dropWhile isspace cs)]
             @ sub_trailing_comma (tl (dropWhile isspace cs))
      else c # sub_trailing_comma cs)"
  by pat_completeness auto
termination
  by (relation "measure length")
    (auto simp: less_Suc_eq_le intro: le_trans [OF diff_le_self length_dropWhile_le])

text \<open>
  \<open>re.sub(r'//.*?$', '', json_str, flags=re.MULTILINE)\<close>: \<open>.\<close> does not match a
  newline and \<open>$\<close> matches before a newline and at the end, so a match runs from \<open>//\<close>
  to the end of its line and leaves the newline.
\<close>

function sub_line_comment :: "string \<Rightarrow> string" where
  "sub_line_comment (c # d # cs) =
     (if c = CHR ''/'' \<and> d = CHR ''/''
      then sub_line_comment (dropWhile (\<lambda>x. x \<noteq> CHR 0x0A) cs)
      else c # sub_line_comment (d # cs))"
| "sub_line_comment [c] = [c]"
| "sub_line_comment [] = []"
  by pat_completeness auto
termination
  by (relation "measure length")
    (auto simp: less_Suc_eq_le intro: le_trans [OF length_dropWhile_le])

text \<open>The rest behind the first \<open>*/\<close> of \<open>cs\<close>, if there is one.\<close>

fun after_close :: "string \<Rightarrow> string option" where
  "after_close (c # d # cs) =
     (if c = CHR ''*'' \<and> d = CHR ''/'' then Some cs else after_close (d # cs))"
| "after_close cs = None"

text \<open>
  \<open>re.sub(r'/\*.*?\*/', '', json_str, flags=re.DOTALL)\<close>: a match runs from \<open>/*\<close> to
  the first \<open>*/\<close> behind it; without one, \<open>/*\<close> stays.
\<close>

function sub_block_comment :: "string \<Rightarrow> string" where
  "sub_block_comment (c # d # cs) =
     (if c = CHR ''/'' \<and> d = CHR ''*'' \<and> after_close cs \<noteq> None
      then sub_block_comment (the (after_close cs))
      else c # sub_block_comment (d # cs))"
| "sub_block_comment [c] = [c]"
| "sub_block_comment [] = []"
  by pat_completeness auto
termination
proof (relation "measure length")
  fix c d :: char and cs :: string
  assume "c = CHR ''/'' \<and> d = CHR ''*'' \<and> after_close cs \<noteq> None"
  then obtain r where r: "after_close cs = Some r"
    by auto
  have "after_close xs = Some ys \<Longrightarrow> length ys < length xs" for xs ys
    by (induction xs rule: after_close.induct) (auto split: if_splits)
  from this [OF r] show "(the (after_close cs), c # d # cs) \<in> measure length"
    using r by simp
qed auto

text \<open>\<open>_clean_json_string\<close>.\<close>

definition clean_json_string :: "string \<Rightarrow> string" where
  "clean_json_string json_str =
     strip (sub_block_comment (sub_line_comment (sub_trailing_comma json_str)))"

section \<open>Response normalizer: \<open>LLMClient.extract_json\<close>\<close>

text \<open>
  \<open>json.loads\<close> is a library function and a parameter of the model: \<open>None\<close> when it
  raises \<open>JSONDecodeError\<close>, the parsed value otherwise. A Python value is \<open>None\<close> (what
  \<open>json.loads\<close> gives for \<open>null\<close>, and what \<open>_extract_balanced_json\<close> returns when it
  finds nothing) or another object.
\<close>

datatype 'v py = PyNone | Obj 'v

type_synonym 'v loads = "string \<Rightarrow> 'v py option"

text \<open>
  Every call of \<open>json.loads\<close> is recorded with its argument and with the part of
  \<open>extract_json\<close> that makes the call. The record is the only place where the model
  says more than the code: the Python returns the bare value.
\<close>

datatype strategy = Direct | LabeledFence | GenericFence | BalancedScan | BestEffortSuffix

type_synonym trace = "(strategy \<times> string) list"

datatype error = ValueError string

definition common_prefixes :: "string list" where
  "common_prefixes =
     [''Here's the JSON:'', ''Here is the JSON:'', ''The JSON is:'', ''JSON:'',
      ''Result:'', ''Output:'', ''Answer:'']"

text \<open>The loop \<open>for prefix in common_prefixes\<close>.\<close>

fun strip_prefixes :: "string list \<Rightarrow> string \<Rightarrow> string" where
  "strip_prefixes [] text = text"
| "strip_prefixes (prefix # rest) text =
     (if startswith (lower text) (lower prefix)
      then strip_prefixes rest (strip (drop (length prefix) text))
      else strip_prefixes rest text)"

text \<open>
  The tail shared by the two fenced-block parts: parse \<open>json_str\<close>, and when that fails
  clean it and parse the cleaned string.
\<close>

definition loads_then_clean ::
  "strategy \<Rightarrow> 'v loads \<Rightarrow> string \<Rightarrow> 'v py option \<times> trace" where
  "loads_then_clean tag parse json_str =
     (case parse json_str of
        Some v \<Rightarrow> (Some v, [(tag, json_str)])
      | None \<Rightarrow>
          (let json_str' = clean_json_string json_str
           in (parse json_str', [(tag, json_str), (tag, json_str')])))"

text \<open>The \<open>```json\<close> block. \<open>None\<close> as the result means that the code falls through.\<close>

definition labeled_fence :: "'v loads \<Rightarrow> string \<Rightarrow> 'v py option \<times> trace" where
  "labeled_fence parse text =
     (if contains (lower text) ''```json'' then
        (case find_from (lower text) ''```json'' 0 of
           None \<Rightarrow> (None, [])
         | Some start_idx \<Rightarrow>
             (let start = start_idx + length ''```json''
              in case find_from text ''```'' start of
                   None \<Rightarrow> (None, [])
                 | Some end \<Rightarrow>
                     loads_then_clean LabeledFence parse (strip (slice text start end))))
      else (None, []))"

text \<open>The generic \<open>```\<close> block.\<close>

definition generic_fence :: "'v loads \<Rightarrow> string \<Rightarrow> 'v py option \<times> trace" where
  "generic_fence parse text =
     (if contains text ''```'' then
        (let start = the (find_from text ''```'' 0) + 3;
             newline = find_from text [CHR 0x0A] start;
             start = (case newline of
                        None \<Rightarrow> start
                      | Some nl \<Rightarrow> if int nl - int start < 20 then nl + 1 else start)
         in case find_from text ''```'' start of
              None \<Rightarrow> (None, [])
            | Some end \<Rightarrow>
                loads_then_clean GenericFence parse (strip (slice text start end)))
      else (None, []))"

text \<open>
  The loop of \<open>_extract_balanced_json\<close>: \<open>cs\<close> is \<open>text\<close> from index \<open>i\<close> on. Where the
  depth comes back to 0 the code parses \<open>json_str\<close>, and when that fails it computes
  \<open>cleaned\<close> and passes \<open>json_str\<close> to \<open>json.loads\<close> again; then it leaves the loop.
\<close>

fun scan_loop ::
  "'v loads \<Rightarrow> string \<Rightarrow> nat \<Rightarrow> char \<Rightarrow> char \<Rightarrow> nat \<Rightarrow> string
     \<Rightarrow> int \<Rightarrow> bool \<Rightarrow> bool \<Rightarrow> 'v py \<times> trace" where
  "scan_loop parse text start_idx start_char end_char i [] depth in_string escape_next =
     (PyNone, [])"
| "scan_loop parse text start_idx start_char end_char i (char # cs) depth in_string escape_next =
     (if escape_next then
        scan_loop parse text start_idx start_char end_char (i + 1) cs depth in_string False
      else if char = CHR 0x5C then
        scan_loop parse text start_idx start_char end_char (i + 1) cs depth in_string True
      else if char = CHR 0x22 then
        scan_loop parse text start_idx start_char end_char (i + 1) cs depth (\<not> in_string) False
      else if in_string then
        scan_loop parse text start_idx start_char end_char (i + 1) cs depth in_string False
      else if char = start_char then
        scan_loop parse text start_idx start_char end_char (i + 1) cs (depth + 1) in_string False
      else if char = end_char then
        (if depth - 1 = 0 then
           (let json_str = slice text start_idx (i + 1)
            in case parse json_str of
                 Some v \<Rightarrow> (v, [(BalancedScan, json_str)])
               | None \<Rightarrow>
                   (let cleaned = clean_json_string json_str
                    in case parse json_str of
                         Some v \<Rightarrow> (v, [(BalancedScan, json_str), (BalancedScan, json_str)])
                       | None \<Rightarrow>
                           (PyNone, [(BalancedScan, json_str), (BalancedScan, json_str)])))
         else
           scan_loop parse text start_idx start_char end_char (i + 1) cs (depth - 1)
             in_string False)
      else
        scan_loop parse text start_idx start_char end_char (i + 1) cs depth in_string False)"

definition extract_balanced_json :: "'v loads \<Rightarrow> string \<Rightarrow> char \<Rightarrow> 'v py \<times> trace" where
  "extract_balanced_json parse text start_char =
     (let end_char = (if start_char = CHR ''{'' then CHR ''}'' else CHR '']'')
      in case find_from text [start_char] 0 of
           None \<Rightarrow> (PyNone, [])
         | Some start_idx \<Rightarrow>
             scan_loop parse text start_idx start_char end_char start_idx
               (drop start_idx text) 0 False False)"

text \<open>The loop \<open>for start_char in ['{', '[']\<close> around \<open>_extract_balanced_json\<close>.\<close>

fun balanced_scan :: "'v loads \<Rightarrow> string \<Rightarrow> char list \<Rightarrow> 'v py option \<times> trace" where
  "balanced_scan parse text [] = (None, [])"
| "balanced_scan parse text (start_char # rest) =
     (case extract_balanced_json parse text start_char of
        (PyNone, t) \<Rightarrow>
          (case balanced_scan parse text rest of (r, t') \<Rightarrow> (r, t @ t'))
      | (result, t) \<Rightarrow> (Some result, t))"

text \<open>The last loop \<open>for start_char in ['{', '[']\<close>.\<close>

fun best_effort_suffix :: "'v loads \<Rightarrow> string \<Rightarrow> char list \<Rightarrow> 'v py option \<times> trace" where
  "best_effort_suffix parse text [] = (None, [])"
| "best_effort_suffix parse text (start_char # rest) =
     (case find_from text [start_char] 0 of
        None \<Rightarrow> best_effort_suffix parse text rest
      | Some start_idx \<Rightarrow>
          (let chunk = drop start_idx text;
               cleaned = clean_json_string chunk
           in case parse cleaned of
                Some v \<Rightarrow> (Some v, [(BestEffortSuffix, cleaned)])
              | None \<Rightarrow>
                  (case best_effort_suffix parse text rest of
                     (r, t') \<Rightarrow> (r, (BestEffortSuffix, cleaned) # t'))))"

text \<open>The text that \<open>extract_json\<close> works on after its first lines.\<close>

definition prepare :: "string \<Rightarrow> string" where
  "prepare text = strip_prefixes common_prefixes (strip text)"

text \<open>Runs the parts in the order of the code; the first one that returns ends the chain.\<close>

fun first_of :: "('v py option \<times> trace) list \<Rightarrow> 'v py option \<times> trace" where
  "first_of [] = (None, [])"
| "first_of ((Some v, t) # rest) = (Some v, t)"
| "first_of ((None, t) # rest) = (case first_of rest of (r, t') \<Rightarrow> (r, t @ t'))"

definition extract_json :: "'v loads \<Rightarrow> string \<Rightarrow> (error + 'v py) \<times> trace" where
  "extract_json parse text0 =
     (if text0 = [] \<or> strip text0 = [] then (Inl (ValueError ''Empty response received''), [])
      else
        (let text = prepare text0
         in case first_of
                  [(parse text, [(Direct, text)]),
                   labeled_fence parse text,
                   generic_fence parse text,
                   balanced_scan parse text [CHR ''{'', CHR ''[''],
                   best_effort_suffix parse text [CHR ''{'', CHR ''['']] of
              (Some v, t) \<Rightarrow> (Inr v, t)
            | (None, t) \<Rightarrow>
                (Inl (ValueError
                   (''Failed to extract valid JSON from response. First 300 chars: ''
                      @ take 300 text @ ''...'')), t)))"

section \<open>Notions of the specification\<close>

subsection \<open>Stream aggregator\<close>

text \<open>
  The fragment a chunk carries, if any, and the text the specification asks for: the
  fragments in delivery order, those that are empty or absent skipped.
\<close>

definition fragment :: "chunk \<Rightarrow> string option" where
  "fragment choices = (case choices of [] \<Rightarrow> None | content # _ \<Rightarrow> content)"

definition concat_fragments :: "chunk list \<Rightarrow> string" where
  "concat_fragments stream = concat (filter (\<lambda>f. f \<noteq> []) (List.map_filter fragment stream))"

text \<open>The logical content of one streamed attempt: its failure, or its text.\<close>

definition delivered :: "'e + (chunk list \<times> 'e option) \<Rightarrow> 'e + string" where
  "delivered r =
     (case r of
        Inl e \<Rightarrow> Inl e
      | Inr (stream, Some e) \<Rightarrow> Inl e
      | Inr (stream, None) \<Rightarrow> Inr (concat_fragments stream))"

subsection \<open>Balanced scanner\<close>

text \<open>
  The scan state of the specification: depth, inside a string, next character escaped.
  A backslash escapes exactly the next character; a quote that is not escaped toggles the
  string flag; the opening and the closing character change the depth only outside
  strings.
\<close>

type_synonym scan_state = "int \<times> bool \<times> bool"

fun scan_step :: "char \<Rightarrow> char \<Rightarrow> scan_state \<Rightarrow> char \<Rightarrow> scan_state" where
  "scan_step opening closing (depth, in_string, escaped) c =
     (if escaped then (depth, in_string, False)
      else if c = CHR 0x5C then (depth, in_string, True)
      else if c = CHR 0x22 then (depth, \<not> in_string, False)
      else if in_string then (depth, in_string, False)
      else if c = opening then (depth + 1, in_string, False)
      else if c = closing then (depth - 1, in_string, False)
      else (depth, in_string, False))"

definition closing_of :: "char \<Rightarrow> char" where
  "closing_of opening = (if opening = CHR ''{'' then CHR ''}'' else CHR '']'')"

text \<open>The depth after the characters \<open>cs\<close>, scanned from the initial state.\<close>

definition depth_after :: "char \<Rightarrow> string \<Rightarrow> int" where
  "depth_after opening cs =
     fst (foldl (scan_step opening (closing_of opening)) (0, False, False) cs)"

text \<open>
  The balanced region: it starts at the first occurrence of the opening character and
  ends where the depth is zero for the first time; there is none when the opening
  character does not occur or the depth never comes back to zero.
\<close>

definition balanced_region :: "string \<Rightarrow> char \<Rightarrow> string option" where
  "balanced_region text opening =
     (case find_from text [opening] 0 of
        None \<Rightarrow> None
      | Some start \<Rightarrow>
          (let rest = drop start text
           in map_option (\<lambda>n. take n rest)
                (List.find (\<lambda>n. depth_after opening (take n rest) = 0)
                   [1..<Suc (length rest)])))"

text \<open>
  The number of characters of \<open>cs\<close> after which the depth is zero for the first time,
  scanning from the state \<open>st\<close>.
\<close>

fun first_zero :: "char \<Rightarrow> char \<Rightarrow> scan_state \<Rightarrow> string \<Rightarrow> nat option" where
  "first_zero opening closing st [] = None"
| "first_zero opening closing st (c # cs) =
     (if fst (scan_step opening closing st c) = 0 then Some 1
      else map_option Suc (first_zero opening closing (scan_step opening closing st c) cs))"

text \<open>
  What lines 227 to 235 of \<open>_extract_balanced_json\<close> do with the region they are given:
  one call of \<open>json.loads\<close> on it, and on failure a second call on the same string.
\<close>

definition parse_region :: "'v loads \<Rightarrow> string \<Rightarrow> 'v py \<times> trace" where
  "parse_region parse region =
     (case parse region of
        Some v \<Rightarrow> (v, [(BalancedScan, region)])
      | None \<Rightarrow> (PyNone, [(BalancedScan, region), (BalancedScan, region)]))"

subsection \<open>Lenient cleaner\<close>

text \<open>Whether one of the three patterns of the cleaner matches somewhere in a text.\<close>

fun has_trailing_comma :: "string \<Rightarrow> bool" where
  "has_trailing_comma [] = False"
| "has_trailing_comma (c # cs) =
     ((c = CHR '','' \<and> closer_follows cs) \<or> has_trailing_comma cs)"

fun has_line_comment :: "string \<Rightarrow> bool" where
  "has_line_comment (c # d # cs) =
     ((c = CHR ''/'' \<and> d = CHR ''/'') \<or> has_line_comment (d # cs))"
| "has_line_comment cs = False"

fun has_block_comment :: "string \<Rightarrow> bool" where
  "has_block_comment (c # d # cs) =
     ((c = CHR ''/'' \<and> d = CHR ''*'' \<and> after_close cs \<noteq> None)
      \<or> has_block_comment (d # cs))"
| "has_block_comment cs = False"

definition pattern_free :: "string \<Rightarrow> bool" where
  "pattern_free s \<longleftrightarrow>
     \<not> has_trailing_comma s \<and> \<not> has_line_comment s \<and> \<not> has_block_comment s"

subsection \<open>Prefix strip\<close>

text \<open>
  Removing one leading phrase: the first phrase of the list that starts the text, upper
  and lower case taken as equal, is cut off and the rest stripped; a text that no phrase
  starts is left as it is. The second component is the part of the list behind the
  phrase that was removed.
\<close>

fun remove_first_prefix :: "string list \<Rightarrow> string \<Rightarrow> string \<times> string list" where
  "remove_first_prefix [] text = (text, [])"
| "remove_first_prefix (prefix # rest) text =
     (if startswith (lower text) (lower prefix)
      then (strip (drop (length prefix) text), rest)
      else remove_first_prefix rest text)"

subsection \<open>Errors\<close>

text \<open>
  The code raises \<open>ValueError\<close> at both places; the two errors of the specification are
  told apart by the message.
\<close>

definition EmptyResponseError :: error where
  "EmptyResponseError = ValueError ''Empty response received''"


section \<open>Inputs for the concrete evaluations\<close>

text \<open>A backend whose attempt \<open>k\<close> raises the exception \<open>k\<close>, in both modes.\<close>

definition failing_backend :: "nat backend" where
  "failing_backend = \<lparr>complete = (\<lambda>k. Inl k), complete_stream = (\<lambda>k. Inl k)\<rparr>"

text \<open>
  A backend that fails at attempt 0 and then answers with the same content in both
  modes; the stream has a chunk without choices, one without content and an empty
  fragment, and only the first choice of a chunk counts.
\<close>

definition chunked_backend :: "nat backend" where
  "chunked_backend =
     \<lparr>complete = (\<lambda>k. if k = 0 then Inl 0 else Inr ''[1, 2]''),
      complete_stream =
        (\<lambda>k. if k = 0 then Inr ([[Some ''[1'']], Some 0)
             else Inr ([[Some ''[1'', Some ''x''], [], [None], [Some []], [Some '', 2]'']],
                       None))\<rparr>"

text \<open>
  A stand-in for \<open>json.loads\<close> in the concrete evaluations: it accepts the listed texts,
  with the listed values, and rejects every other text.
\<close>

definition loads_table :: "(string \<times> string py) list \<Rightarrow> string loads" where
  "loads_table t s = map_of t s"

section \<open>The retry loop\<close>

lemma retry_loop_exhausted:
  "max_retries \<le> attempt \<Longrightarrow>
     retry_loop b s max_retries attempt last_exception lg =
       (case last_exception of
          None \<Rightarrow> (Inl RaiseNoneTypeError, lg)
        | Some e \<Rightarrow> (Inl (BackendError e), lg))"
  by (subst retry_loop.simps) simp

lemma retry_loop_all_fail:
  assumes "\<And>k. a \<le> k \<Longrightarrow> k < n \<Longrightarrow> attempt_call b s (nat k) = Inl (f (nat k))"
    and "0 \<le> a" and "a < n"
  shows "retry_loop b s n a le lg =
           (Inl (BackendError (f (nat (n - 1)))),
            \<lparr>attempts = attempts lg + nat (n - a),
             waits = waits lg @ map (\<lambda>i. 2 ^ i) [nat a..<nat (n - 1)]\<rparr>)"
  using assms
proof (induction "nat (n - a)" arbitrary: a le lg)
  case 0
  then show ?case by simp
next
  case (Suc d)
  have fail: "attempt_call b s (nat a) = Inl (f (nat a))"
    using Suc.prems by simp
  show ?case
  proof (cases "a < n - 1")
    case True
    let ?lg = "lg\<lparr>attempts := attempts lg + 1, waits := waits lg @ [2 ^ nat a]\<rparr>"
    have step: "retry_loop b s n a le lg = retry_loop b s n (a + 1) (Some (f (nat a))) ?lg"
      using True fail by (subst retry_loop.simps) simp
    have d: "d = nat (n - (a + 1))"
      using Suc.hyps(2) by linarith
    have ih: "retry_loop b s n (a + 1) (Some (f (nat a))) ?lg =
        (Inl (BackendError (f (nat (n - 1)))),
         \<lparr>attempts = attempts ?lg + nat (n - (a + 1)),
          waits = waits ?lg @ map (\<lambda>i. 2 ^ i) [nat (a + 1)..<nat (n - 1)]\<rparr>)"
      using Suc.hyps(1) [OF d] Suc.prems True by simp
    have nats: "nat (a + 1) = Suc (nat a)"
      using Suc.prems by simp
    have lt: "nat a < nat (n - 1)"
      using True Suc.prems by simp
    have "[nat a..<nat (n - 1)] = nat a # [Suc (nat a)..<nat (n - 1)]"
      using lt by (simp add: upt_conv_Cons)
    moreover have "1 + nat (n - (a + 1)) = nat (n - a)"
      using True by simp
    ultimately show ?thesis
      using step ih nats by simp
  next
    case False
    then have an: "a = n - 1"
      using Suc.prems by simp
    have step: "retry_loop b s n a le lg =
        retry_loop b s n (a + 1) (Some (f (nat a))) (lg\<lparr>attempts := attempts lg + 1\<rparr>)"
      using False fail Suc.prems by (subst retry_loop.simps) simp
    show ?thesis
      using step an by (simp add: retry_loop_exhausted)
  qed
qed

text \<open>
  Claim C10. With \<open>max_retries\<close> zero or negative the loop body does not run: the backend
  is not called, nothing is waited for, no text is returned, and the call ends in the
  \<open>TypeError\<close> of \<open>raise last_exception\<close> with \<open>last_exception\<close> still \<open>None\<close>.
\<close>

theorem chat_completion_no_budget:
  "max_retries \<le> 0 \<Longrightarrow>
     chat_completion b use_streaming max_retries =
       (Inl RaiseNoneTypeError, \<lparr>attempts = 0, waits = []\<rparr>)"
  by (simp add: chat_completion_def retry_loop_exhausted no_log_def)

theorem chat_completion_no_budget_witness:
  "chat_completion failing_backend True 0 =
     (Inl RaiseNoneTypeError, \<lparr>attempts = 0, waits = []\<rparr>)"
  using chat_completion_no_budget [of 0 failing_backend True] by simp

text \<open>
  Claim C2. Against a backend that fails on every attempt, a call with a retry budget
  \<open>max_retries\<close> of at least one makes exactly \<open>max_retries\<close> attempts, waits \<open>2 ^ i\<close>
  after the failed attempt \<open>i\<close> for every attempt but the last (so \<open>max_retries - 1\<close>
  waits: 1, 2, 4, ...), and then raises the failure of the last attempt.
\<close>

theorem chat_completion_all_fail:
  assumes "0 < max_retries"
    and "\<forall>k < nat max_retries. attempt_call b use_streaming k = Inl (failure k)"
  shows "chat_completion b use_streaming max_retries =
           (Inl (BackendError (failure (nat max_retries - 1))),
            \<lparr>attempts = nat max_retries,
             waits = map (\<lambda>i. 2 ^ i) [0..<nat max_retries - 1]\<rparr>)"
proof -
  have "\<And>k. 0 \<le> k \<Longrightarrow> k < max_retries \<Longrightarrow>
      attempt_call b use_streaming (nat k) = Inl (failure (nat k))"
    using assms(2) by simp
  from retry_loop_all_fail [of 0 max_retries b use_streaming failure None no_log, OF this]
    assms(1)
  show ?thesis
    by (simp add: chat_completion_def no_log_def nat_diff_distrib)
qed

theorem chat_completion_all_fail_witness:
  "chat_completion failing_backend False 3 =
     (Inl (BackendError 2), \<lparr>attempts = 3, waits = [1, 2]\<rparr>)"
proof -
  have h: "\<forall>k < nat 3. attempt_call failing_backend False k = Inl k"
    by (simp add: attempt_call_def failing_backend_def)
  have "[0..<nat 3 - 1] = [0, 1]"
    by (simp add: upt_conv_Cons)
  with chat_completion_all_fail [of 3 failing_backend False "\<lambda>k. k", OF _ h]
  show ?thesis by simp
qed

section \<open>The stream aggregator\<close>

lemma concat_filter_nonempty: "concat (filter (\<lambda>f. f \<noteq> []) xs) = concat xs"
  by (induction xs) auto

lemma collect_chunks_concat:
  "concat (collect_chunks full_content stream) = concat full_content @ concat_fragments stream"
proof (induction stream arbitrary: full_content)
  case Nil
  then show ?case by (simp add: concat_fragments_def List.map_filter_simps)
next
  case (Cons choices stream)
  show ?case
  proof (cases choices)
    case Nil
    then show ?thesis
      using Cons.IH by (simp add: concat_fragments_def fragment_def List.map_filter_simps)
  next
    case (Cons content others)
    then show ?thesis
      using Cons.IH
      by (cases content)
        (simp_all add: concat_fragments_def fragment_def List.map_filter_simps
          concat_filter_nonempty)
  qed
qed

lemma handle_streaming_delivered:
  "handle_streaming_response b k = delivered (complete_stream b k)"
  by (simp add: handle_streaming_response_def delivered_def collect_chunks_concat
      split: sum.splits prod.splits option.splits)

lemma retry_loop_same_attempts:
  assumes "\<And>k. a \<le> k \<Longrightarrow> k < n \<Longrightarrow> attempt_call b s (nat k) = attempt_call b s' (nat k)"
  shows "retry_loop b s n a le lg = retry_loop b s' n a le lg"
  using assms
proof (induction "nat (n - a)" arbitrary: a le lg)
  case 0
  then have "n \<le> a" by simp
  then show ?case by (simp add: retry_loop_exhausted)
next
  case (Suc d)
  then have lt: "a < n" by linarith
  have d: "d = nat (n - (a + 1))" using Suc.hyps(2) by linarith
  have same: "attempt_call b s (nat a) = attempt_call b s' (nat a)"
    using Suc.prems [of a] lt by simp
  have ih: "retry_loop b s n (a + 1) le' lg' = retry_loop b s' n (a + 1) le' lg'" for le' lg'
  proof (rule Suc.hyps(1) [OF d])
    fix k assume "a + 1 \<le> k" "k < n"
    then show "attempt_call b s (nat k) = attempt_call b s' (nat k)"
      using Suc.prems [of k] by simp
  qed
  have "retry_loop b s n a le lg =
      (case attempt_call b s' (nat a) of
         Inr content \<Rightarrow> (Inr content, lg\<lparr>attempts := attempts lg + 1\<rparr>)
       | Inl e \<Rightarrow>
           (if a < n - 1
            then retry_loop b s' n (a + 1) (Some e)
                   (lg\<lparr>attempts := attempts lg + 1, waits := waits lg @ [2 ^ nat a]\<rparr>)
            else retry_loop b s' n (a + 1) (Some e) (lg\<lparr>attempts := attempts lg + 1\<rparr>)))"
    unfolding retry_loop.simps [of b s n a le lg] same ih using lt by simp
  also have "\<dots> = retry_loop b s' n a le lg"
    unfolding retry_loop.simps [of b s' n a le lg] using lt by simp
  finally show ?case .
qed

text \<open>
  Claim C6. The aggregator returns the fragments of the stream concatenated in delivery
  order, chunks without a fragment and empty fragments adding nothing. So when every
  attempt within the budget delivers the same content in both modes (the same failure,
  or fragments whose concatenation is the full payload), a call with streaming and a
  call without return the same text, after the same attempts and waits.
\<close>

theorem streaming_equivalence:
  assumes "\<forall>k < nat max_retries. delivered (complete_stream b k) = complete b k"
  shows "chat_completion b True max_retries = chat_completion b False max_retries \<and>
         (\<forall>k. handle_streaming_response b k = delivered (complete_stream b k))"
proof -
  have "attempt_call b True (nat k) = attempt_call b False (nat k)"
    if "0 \<le> k" "k < max_retries" for k
    using assms that by (simp add: attempt_call_def handle_streaming_delivered)
  then have "chat_completion b True max_retries = chat_completion b False max_retries"
    unfolding chat_completion_def by (rule retry_loop_same_attempts)
  then show ?thesis
    by (simp add: handle_streaming_delivered)
qed

theorem streaming_equivalence_witness:
  "chat_completion chunked_backend True 3 = (Inr ''[1, 2]'', \<lparr>attempts = 2, waits = [1]\<rparr>) \<and>
   chat_completion chunked_backend False 3 = (Inr ''[1, 2]'', \<lparr>attempts = 2, waits = [1]\<rparr>)"
proof -
  have h: "\<forall>k < nat 3. delivered (complete_stream chunked_backend k) = complete chunked_backend k"
    by (simp add: delivered_def chunked_backend_def concat_fragments_def fragment_def
        List.map_filter_simps)
  have "chat_completion chunked_backend False 3 =
      (Inr ''[1, 2]'', \<lparr>attempts = 2, waits = [1]\<rparr>)"
    by code_simp
  with streaming_equivalence [OF h] show ?thesis by simp
qed

section \<open>The balanced scanner\<close>

lemma find_map_Suc:
  "List.find P (map f xs) = map_option f (List.find (P \<circ> f) xs)"
  by (induction xs) auto

lemma upt_one_Suc_Suc: "[1..<Suc (Suc n)] = 1 # map Suc [1..<Suc n]"
proof -
  have "[1..<Suc (Suc n)] = 1 # [Suc 1..<Suc (Suc n)]"
    by (rule upt_conv_Cons) simp
  also have "[Suc 1..<Suc (Suc n)] = map Suc [1..<Suc n]"
    by (rule map_Suc_upt [symmetric])
  finally show ?thesis .
qed

lemma first_zero_find:
  "first_zero opening closing st cs =
     List.find (\<lambda>n. fst (foldl (scan_step opening closing) st (take n cs)) = 0)
       [1..<Suc (length cs)]"
proof (induction cs arbitrary: st)
  case Nil
  then show ?case by simp
next
  case (Cons c cs)
  have "List.find (\<lambda>n. fst (foldl (scan_step opening closing) st (take n (c # cs))) = 0)
          [1..<Suc (length (c # cs))] =
        List.find (\<lambda>n. fst (foldl (scan_step opening closing) st (take n (c # cs))) = 0)
          (1 # map Suc [1..<Suc (length cs)])"
    using upt_one_Suc_Suc [of "length cs"] by simp
  also have "\<dots> = first_zero opening closing st (c # cs)"
    by (simp add: Cons.IH find_map_Suc comp_def del: upt_Suc)
  finally show ?case by (rule sym)
qed

lemma scan_step_pos:
  "0 < depth \<Longrightarrow> scan_step opening closing (depth, in_string, escaped) c = (d', s', e')
     \<Longrightarrow> d' \<noteq> 0 \<Longrightarrow> 0 < d'"
  by (auto split: if_splits)

lemma scan_loop_step:
  "0 < depth \<Longrightarrow> scan_step opening closing (depth, in_string, escaped) c = (d', s', e') \<Longrightarrow>
   scan_loop parse text start_idx opening closing i (c # cs) depth in_string escaped =
     (if d' = 0 then parse_region parse (slice text start_idx (i + 1))
      else scan_loop parse text start_idx opening closing (i + 1) cs d' s' e')"
  by (auto simp: parse_region_def Let_def split: if_splits option.splits)

lemma scan_loop_first_zero:
  "0 < depth \<Longrightarrow>
   scan_loop parse text start_idx opening closing i cs depth in_string escaped =
     (case first_zero opening closing (depth, in_string, escaped) cs of
        None \<Rightarrow> (PyNone, [])
      | Some n \<Rightarrow> parse_region parse (slice text start_idx (i + n)))"
proof (induction cs arbitrary: i depth in_string escaped)
  case Nil
  then show ?case by simp
next
  case (Cons c cs)
  obtain d' s' e' where st: "scan_step opening closing (depth, in_string, escaped) c = (d', s', e')"
    by (metis prod_cases3)
  note step = scan_loop_step [OF Cons.prems st]
  show ?case
  proof (cases "d' = 0")
    case True
    then show ?thesis
      unfolding step by (simp add: st del: scan_step.simps)
  next
    case False
    then have "0 < d'"
      using scan_step_pos [OF Cons.prems st] by simp
    from Cons.IH [OF this, of "i + 1" s' e'] False show ?thesis
      unfolding step
      by (cases "first_zero opening closing (d', s', e') cs")
        (simp_all add: st del: scan_step.simps)
  qed
qed

lemma find_at_Some:
  "find_at [c] cs i = Some j \<Longrightarrow> \<exists>k. j = i + k \<and> k < length cs \<and> cs ! k = c"
proof (induction cs arbitrary: i)
  case Nil then show ?case by simp
next
  case (Cons x xs)
  show ?case
  proof (cases "x = c")
    case True
    with Cons.prems have "j = i" by (simp add: startswith_def)
    with True show ?thesis by simp
  next
    case False
    with Cons.prems have "find_at [c] xs (i + 1) = Some j" by (simp add: startswith_def)
    from Cons.IH [OF this] obtain k where "j = i + 1 + k" "k < length xs" "xs ! k = c"
      by blast
    then have "j = i + Suc k \<and> Suc k < length (x # xs) \<and> (x # xs) ! Suc k = c"
      by simp
    then show ?thesis by blast
  qed
qed

lemma find_from_char:
  assumes "find_from text [c] 0 = Some start"
  shows "\<exists>rest. drop start text = c # rest"
proof -
  from assms have "find_at [c] text 0 = Some start" by (simp add: find_from_def)
  from find_at_Some [OF this] have "start < length text" "text ! start = c" by auto
  then show ?thesis by (metis Cons_nth_drop_Suc)
qed

lemma extract_balanced_json_region:
  assumes "opening = CHR ''{'' \<or> opening = CHR ''[''"
  shows "extract_balanced_json parse text opening =
     (case balanced_region text opening of
        None \<Rightarrow> (PyNone, [])
      | Some region \<Rightarrow> parse_region parse region)"
proof (cases "find_from text [opening] 0")
  case None
  then show ?thesis by (simp add: extract_balanced_json_def balanced_region_def)
next
  case (Some start)
  then obtain rest where rest: "drop start text = opening # rest"
    using find_from_char by blast
  let ?cl = "closing_of opening"
  have op: "opening \<noteq> CHR 0x5C" "opening \<noteq> CHR 0x22" using assms by auto
  have step0: "scan_step opening ?cl (0, False, False) opening = (1, False, False)"
    using op by simp
  have loop: "scan_loop parse text start opening ?cl start (opening # rest) 0 False False =
      scan_loop parse text start opening ?cl (start + 1) rest 1 False False"
    using op by simp
  have fz: "first_zero opening ?cl (0, False, False) (opening # rest) =
      map_option Suc (first_zero opening ?cl (1, False, False) rest)"
    using step0 by simp
  have br: "balanced_region text opening =
      map_option (\<lambda>n. take n (drop start text))
        (first_zero opening ?cl (0, False, False) (drop start text))"
    unfolding balanced_region_def depth_after_def first_zero_find Some
    by (simp add: Let_def del: upt_Suc)
  have "extract_balanced_json parse text opening =
      scan_loop parse text start opening ?cl (start + 1) rest 1 False False"
    using Some rest loop by (simp add: extract_balanced_json_def closing_of_def)
  also have "\<dots> = (case first_zero opening ?cl (1, False, False) rest of
        None \<Rightarrow> (PyNone, [])
      | Some n \<Rightarrow> parse_region parse (slice text start (start + 1 + n)))"
    by (rule scan_loop_first_zero) simp
  also have "\<dots> = (case first_zero opening ?cl (0, False, False) (drop start text) of
        None \<Rightarrow> (PyNone, [])
      | Some n \<Rightarrow> parse_region parse (take n (drop start text)))"
    unfolding rest fz
    by (cases "first_zero opening ?cl (1, False, False) rest")
      (simp_all add: slice_def rest)
  also have "\<dots> = (case balanced_region text opening of
        None \<Rightarrow> (PyNone, [])
      | Some region \<Rightarrow> parse_region parse region)"
    unfolding br
    by (cases "first_zero opening ?cl (0, False, False) (drop start text)") simp_all
  finally show ?thesis .
qed

lemma balanced_region_Some:
  assumes "balanced_region text opening = Some region"
  shows "\<exists>start. find_from text [opening] 0 = Some start \<and>
           region = slice text start (start + length region) \<and>
           0 < length region \<and>
           depth_after opening region = 0 \<and>
           (\<forall>n. 0 < n \<and> n < length region \<longrightarrow> depth_after opening (take n region) \<noteq> 0)"
proof -
  from assms obtain start where start: "find_from text [opening] 0 = Some start"
    by (auto simp: balanced_region_def split: option.splits)
  let ?rest = "drop start text"
  let ?P = "\<lambda>n. depth_after opening (take n ?rest) = 0"
  from assms start obtain n where
    n: "List.find ?P [1..<Suc (length ?rest)] = Some n" and region: "region = take n ?rest"
    by (auto simp: balanced_region_def Let_def simp del: upt_Suc)
  from n obtain i where i: "i < length [1..<Suc (length ?rest)]"
    and Pi: "?P ([1..<Suc (length ?rest)] ! i)"
    and ni: "n = [1..<Suc (length ?rest)] ! i"
    and least: "\<forall>j<i. \<not> ?P ([1..<Suc (length ?rest)] ! j)"
    unfolding find_Some_iff by blast
  have ilen: "i < length ?rest"
    using i by (simp del: upt_Suc)
  then have n1: "n = 1 + i"
    using ni by (simp del: upt_Suc)
  then have nlen: "n \<le> length ?rest" and npos: "0 < n"
    using ilen by simp_all
  have len: "length region = n"
    using region nlen by simp
  have d0: "depth_after opening region = 0"
    using Pi ni region by simp
  have early: "depth_after opening (take m region) \<noteq> 0" if "0 < m" "m < length region" for m
  proof -
    from that len n1 have mi: "m - 1 < i" by simp
    have "m - 1 < length ?rest" using mi ilen by simp
    then have "[1..<Suc (length ?rest)] ! (m - 1) = m"
      using that by (simp del: upt_Suc)
    with least mi have "\<not> ?P m" by metis
    moreover have "take m region = take m ?rest"
      using that len region by (simp add: min_def)
    ultimately show ?thesis by simp
  qed
  have "region = slice text start (start + length region)"
    using region len by (simp add: slice_def)
  with start npos len d0 early show ?thesis
    by blast
qed

text \<open>
  Claim C3. For the opening characters \<open>{\<close> and \<open>[\<close>, the region that
  \<open>_extract_balanced_json\<close> hands to \<open>json.loads\<close> is the balanced region of the
  specification: it starts at the first occurrence of the opening character and ends
  where the depth, counted by the scan state of the specification (a backslash escapes
  exactly the next character, an unescaped quote toggles the string flag, opening and
  closing characters count only outside strings), is zero for the first time and not
  earlier; without such a position nothing is parsed and the result is \<open>None\<close>.
\<close>

theorem balanced_scanner_region:
  assumes "opening = CHR ''{'' \<or> opening = CHR ''[''"
  shows "extract_balanced_json parse text opening =
           (case balanced_region text opening of
              None \<Rightarrow> (PyNone, [])
            | Some region \<Rightarrow> parse_region parse region) \<and>
         (\<forall>region. balanced_region text opening = Some region \<longrightarrow>
            (\<exists>start. find_from text [opening] 0 = Some start \<and>
               region = slice text start (start + length region) \<and>
               0 < length region \<and>
               depth_after opening region = 0 \<and>
               (\<forall>n. 0 < n \<and> n < length region \<longrightarrow>
                  depth_after opening (take n region) \<noteq> 0)))"
  using extract_balanced_json_region [OF assms] balanced_region_Some by blast

theorem balanced_scanner_region_witness:
  \<open>extract_balanced_json (loads_table [(''{"a": "x{y}z"}'', Obj ''dict'')])
      ''see {"a": "x{y}z"} ok'' (CHR ''{'') =
     (Obj ''dict'', [(BalancedScan, ''{"a": "x{y}z"}'')]) \<and>
   balanced_region ''see {"a": "x{y}z"} ok'' (CHR ''{'') = Some ''{"a": "x{y}z"}''\<close>
proof -
  have br: \<open>balanced_region ''see {"a": "x{y}z"} ok'' (CHR ''{'') = Some ''{"a": "x{y}z"}''\<close>
    by code_simp
  have \<open>parse_region (loads_table [(''{"a": "x{y}z"}'', Obj ''dict'')]) ''{"a": "x{y}z"}'' =
      (Obj ''dict'', [(BalancedScan, ''{"a": "x{y}z"}'')])\<close>
    by (simp add: parse_region_def loads_table_def)
  with balanced_scanner_region
    [of \<open>CHR ''{''\<close> \<open>loads_table [(''{"a": "x{y}z"}'', Obj ''dict'')]\<close>
        \<open>''see {"a": "x{y}z"} ok''\<close>] br
  show ?thesis by simp
qed

text \<open>
  Claim C1. The code does not do what the claim says: when \<open>json.loads\<close> rejects the
  balanced region, the cleaned string is computed and dropped, the region itself is
  passed to \<open>json.loads\<close> a second time, and \<open>_extract_balanced_json\<close> returns \<open>None\<close>,
  also when the cleaned region would have parsed.
\<close>

theorem balanced_scan_reparses_region:
  assumes "opening = CHR ''{'' \<or> opening = CHR ''[''"
    and "balanced_region text opening = Some region"
    and "parse region = None"
  shows "extract_balanced_json parse text opening =
           (PyNone, [(BalancedScan, region), (BalancedScan, region)])"
  using extract_balanced_json_region [OF assms(1), of parse "text"] assms(2,3)
  by (simp add: parse_region_def)

theorem balanced_scan_reparses_region_witness:
  \<open>extract_balanced_json (loads_table [(''{"a": 1}'', Obj ''dict'')]) ''{"a": 1,}'' (CHR ''{'') =
     (PyNone, [(BalancedScan, ''{"a": 1,}''), (BalancedScan, ''{"a": 1,}'')]) \<and>
   loads_table [(''{"a": 1}'', Obj ''dict'')] (clean_json_string ''{"a": 1,}'') =
     Some (Obj ''dict'')\<close>
proof -
  have br: \<open>balanced_region ''{"a": 1,}'' (CHR ''{'') = Some ''{"a": 1,}''\<close>
    by code_simp
  have rej: \<open>loads_table [(''{"a": 1}'', Obj ''dict'')] ''{"a": 1,}'' = None\<close>
    by (simp add: loads_table_def)
  have cl: \<open>loads_table [(''{"a": 1}'', Obj ''dict'')] (clean_json_string ''{"a": 1,}'') =
      Some (Obj ''dict'')\<close>
    by code_simp
  from balanced_scan_reparses_region
    [where parse = \<open>loads_table [(''{"a": 1}'', Obj ''dict'')]\<close>, OF _ br rej] cl
  show ?thesis
    by simp
qed

section \<open>The lenient cleaner\<close>

lemma sub_trailing_comma_id: "\<not> has_trailing_comma s \<Longrightarrow> sub_trailing_comma s = s"
  by (induction s) auto

lemma sub_line_comment_id: "\<not> has_line_comment s \<Longrightarrow> sub_line_comment s = s"
  by (induction s rule: has_line_comment.induct) auto

lemma sub_block_comment_id: "\<not> has_block_comment s \<Longrightarrow> sub_block_comment s = s"
  by (induction s rule: has_block_comment.induct) auto

lemma clean_pattern_free: "pattern_free s \<Longrightarrow> clean_json_string s = strip s"
  by (simp add: pattern_free_def clean_json_string_def sub_trailing_comma_id
      sub_line_comment_id sub_block_comment_id)

lemma has_line_comment_Cons: "\<not> has_line_comment (c # cs) \<Longrightarrow> \<not> has_line_comment cs"
  by (cases cs) auto

lemma has_block_comment_Cons: "\<not> has_block_comment (c # cs) \<Longrightarrow> \<not> has_block_comment cs"
  by (cases cs) auto

lemma pattern_free_Cons: "pattern_free (c # cs) \<Longrightarrow> pattern_free cs"
  unfolding pattern_free_def
  using has_line_comment_Cons has_block_comment_Cons by auto

lemma pattern_free_dropWhile: "pattern_free s \<Longrightarrow> pattern_free (dropWhile P s)"
  by (induction s) (auto dest: pattern_free_Cons)

lemma closer_follows_append: "closer_follows p \<Longrightarrow> closer_follows (p @ q)"
proof -
  assume cf: "closer_follows p"
  then obtain d r where dr: "dropWhile isspace p = d # r" and d: "is_closer d"
    by (auto simp: closer_follows_def split: list.splits)
  from dr have "\<not> (\<forall>x\<in>set p. isspace x)"
    by (metis dropWhile_eq_Nil_conv list.distinct(1))
  then obtain x where "x \<in> set p" "\<not> isspace x"
    by blast
  then have "dropWhile isspace (p @ q) = dropWhile isspace p @ q"
    by (rule dropWhile_append1)
  then have "dropWhile isspace (p @ q) = d # (r @ q)"
    using dr by simp
  then show ?thesis
    using d by (simp add: closer_follows_def)
qed

lemma has_trailing_comma_append: "has_trailing_comma p \<Longrightarrow> has_trailing_comma (p @ q)"
  by (induction p) (auto simp: closer_follows_append)

lemma has_line_comment_append: "has_line_comment p \<Longrightarrow> has_line_comment (p @ q)"
  by (induction p rule: has_line_comment.induct) auto

lemma after_close_append: "after_close p = Some r \<Longrightarrow> after_close (p @ q) = Some (r @ q)"
  by (induction p rule: after_close.induct) (auto split: if_splits)

lemma has_block_comment_append: "has_block_comment p \<Longrightarrow> has_block_comment (p @ q)"
  by (induction p rule: has_block_comment.induct) (auto simp: after_close_append)

lemma pattern_free_prefix: "pattern_free (p @ q) \<Longrightarrow> pattern_free p"
  unfolding pattern_free_def
  using has_trailing_comma_append has_line_comment_append has_block_comment_append by blast

lemma rev_dropWhile_rev_prefix: "\<exists>q. s = rev (dropWhile P (rev s)) @ q"
proof -
  have "rev s = takeWhile P (rev s) @ dropWhile P (rev s)"
    by simp
  then have "s = rev (dropWhile P (rev s)) @ rev (takeWhile P (rev s))"
    by (metis rev_append rev_rev_ident)
  then show ?thesis ..
qed

lemma pattern_free_strip: "pattern_free s \<Longrightarrow> pattern_free (strip s)"
proof -
  assume "pattern_free s"
  then have d: "pattern_free (dropWhile isspace s)"
    by (rule pattern_free_dropWhile)
  obtain q where "dropWhile isspace s = strip s @ q"
    unfolding strip_def using rev_dropWhile_rev_prefix by blast
  with d show ?thesis
    by (metis pattern_free_prefix)
qed

lemma dropWhile_fixed: "xs = [] \<or> \<not> P (hd xs) \<Longrightarrow> dropWhile P xs = xs"
  by (cases xs) auto

lemma strip_idem: "strip (strip s) = strip s"
proof -
  let ?d = "dropWhile isspace s"
  obtain q where q: "?d = strip s @ q"
    unfolding strip_def using rev_dropWhile_rev_prefix by blast
  have front: "dropWhile isspace (strip s) = strip s"
  proof (rule dropWhile_fixed, cases "strip s = []")
    case True
    then show "strip s = [] \<or> \<not> isspace (hd (strip s))"
      by simp
  next
    case False
    then have "hd (strip s) = hd ?d" and "?d \<noteq> []"
      using q by (metis hd_append2, metis append_is_Nil_conv)
    then show "strip s = [] \<or> \<not> isspace (hd (strip s))"
      using hd_dropWhile [of isspace s] by simp
  qed
  have "strip (strip s) = rev (dropWhile isspace (rev (strip s)))"
    unfolding front strip_def [of "strip s"] ..
  also have "\<dots> = strip s"
    by (simp add: strip_def)
  finally show ?thesis .
qed

text \<open>
  Claim C4, as stated: cleaning twice gives the same text as cleaning once, for every
  text. It fails on \<open>,,}\<close>: the first pass removes only the comma in front of the
  closer and leaves \<open>,}\<close>, which the second pass turns into \<open>}\<close>.
\<close>

theorem clean_not_idempotent:
  "clean_json_string '',,}'' = '',}'' \<and>
   clean_json_string (clean_json_string '',,}'') = ''}''"
  by code_simp

text \<open>
  Claim C4, amended. On a text in which none of the three patterns matches, the cleaner
  only strips the whitespace at both ends, and a second pass changes nothing; so
  cleaning a text that is already clean is a no-op.
\<close>

theorem clean_idempotent_pattern_free:
  assumes "pattern_free s"
  shows "clean_json_string s = strip s \<and>
         clean_json_string (clean_json_string s) = clean_json_string s"
  using assms clean_pattern_free pattern_free_strip strip_idem by metis

theorem clean_idempotent_pattern_free_witness:
  \<open>clean_json_string ''  {"a": [1, 2]} '' = ''{"a": [1, 2]}'' \<and>
   clean_json_string (clean_json_string ''  {"a": [1, 2]} '') = ''{"a": [1, 2]}''\<close>
proof -
  have pf: \<open>pattern_free ''  {"a": [1, 2]} ''\<close>
    by code_simp
  have st: \<open>strip ''  {"a": [1, 2]} '' = ''{"a": [1, 2]}''\<close>
    by code_simp
  note t = clean_idempotent_pattern_free [OF pf]
  have a: \<open>clean_json_string ''  {"a": [1, 2]} '' = strip ''  {"a": [1, 2]} ''\<close>
    by (rule conjunct1 [OF t])
  have b: \<open>clean_json_string (clean_json_string ''  {"a": [1, 2]} '') =
      clean_json_string ''  {"a": [1, 2]} ''\<close>
    by (rule conjunct2 [OF t])
  have d: \<open>clean_json_string ''  {"a": [1, 2]} '' = ''{"a": [1, 2]}''\<close>
    using a st by (rule trans)
  have c: \<open>clean_json_string (clean_json_string ''  {"a": [1, 2]} '') = ''{"a": [1, 2]}''\<close>
    using b d by (rule trans)
  from d c show ?thesis
    by (rule conjI)
qed

section \<open>The response normalizer\<close>

lemma strip_Nil_iff: "strip s = [] \<longleftrightarrow> (\<forall>c\<in>set s. isspace c)"
proof
  assume "strip s = []"
  then have all: "\<forall>c\<in>set (dropWhile isspace s). isspace c"
    by (simp add: strip_def dropWhile_eq_Nil_conv)
  show "\<forall>c\<in>set s. isspace c"
  proof (cases "dropWhile isspace s")
    case Nil
    then show ?thesis
      by (simp add: dropWhile_eq_Nil_conv)
  next
    case (Cons x xs)
    then have "\<not> isspace x"
      using hd_dropWhile [of isspace s] by simp
    with all Cons show ?thesis
      by simp
  qed
next
  assume "\<forall>c\<in>set s. isspace c"
  then have d: "dropWhile isspace s = []"
    by (simp add: dropWhile_eq_Nil_conv)
  show "strip s = []"
    unfolding strip_def d by simp
qed

lemma strip_prefixes_later:
  "remove_first_prefix ps t = (t', later) \<Longrightarrow> strip_prefixes ps t = strip_prefixes later t'"
  by (induction ps) (auto split: if_splits)

lemma strip_prefixes_none:
  "\<forall>q\<in>set ps. \<not> startswith (lower t) (lower q) \<Longrightarrow> strip_prefixes ps t = t"
  by (induction ps) auto

lemma remove_first_prefix_none:
  "\<forall>q\<in>set ps. \<not> startswith (lower t) (lower q) \<Longrightarrow> remove_first_prefix ps t = (t, [])"
  by (induction ps) auto

text \<open>
  Claim C7. On an input that is empty or consists of whitespace only, \<open>extract_json\<close>
  raises the error for an empty response at once: \<open>json.loads\<close> is not called, so no
  strategy is tried, and nothing is tried again.
\<close>

theorem extract_json_blank:
  assumes "\<forall>c\<in>set text0. isspace c"
  shows "extract_json parse text0 = (Inl EmptyResponseError, [])"
  using assms strip_Nil_iff [of text0]
  by (simp add: extract_json_def EmptyResponseError_def)

theorem extract_json_blank_witness:
  "extract_json (loads_table []) [CHR 0x20, CHR 0x0A, CHR 0x09, CHR 0x20] =
     (Inl EmptyResponseError, [])"
proof -
  have "\<forall>c\<in>set [CHR 0x20, CHR 0x0A, CHR 0x09, CHR 0x20]. isspace c"
    by (simp add: isspace_def)
  from extract_json_blank [OF this] show ?thesis .
qed

text \<open>
  Claim C5. When the direct parse succeeds, that is when \<open>json.loads\<close> accepts the text
  that \<open>extract_json\<close> has prepared from an input that is not blank, the result is
  exactly the parsed value, and this one call of \<open>json.loads\<close>, made by the direct
  parse, is the only one: no later strategy runs.
\<close>

theorem extract_json_direct:
  assumes "strip text0 \<noteq> []"
    and "parse (prepare text0) = Some v"
  shows "extract_json parse text0 = (Inr v, [(Direct, prepare text0)])"
proof -
  from assms(1) have "text0 \<noteq> []"
    by (auto simp: strip_def)
  with assms show ?thesis
    by (simp add: extract_json_def Let_def)
qed

theorem extract_json_direct_witness:
  \<open>extract_json (loads_table [(''{"a": 1}'', Obj ''dict'')]) '' {"a": 1}  '' =
     (Inr (Obj ''dict''), [(Direct, ''{"a": 1}'')])\<close>
proof -
  have s: \<open>strip '' {"a": 1}  '' \<noteq> []\<close>
    by code_simp
  have p: \<open>prepare '' {"a": 1}  '' = ''{"a": 1}''\<close>
    by code_simp
  have \<open>loads_table [(''{"a": 1}'', Obj ''dict'')] (prepare '' {"a": 1}  '') = Some (Obj ''dict'')\<close>
    unfolding p by (simp add: loads_table_def)
  from extract_json_direct
    [where parse = \<open>loads_table [(''{"a": 1}'', Obj ''dict'')]\<close>, OF s this]
  show ?thesis
    unfolding p .
qed




text \<open>
  Claim C9, as stated: the prefix strip removes exactly one leading phrase. It fails on
  \<open>JSON: Result: 1\<close>: removing one phrase leaves \<open>Result: 1\<close>, and the code goes on
  through the list and removes \<open>Result:\<close> as well.
\<close>

theorem prefix_strip_removes_two:
  "fst (remove_first_prefix common_prefixes (strip ''JSON: Result: 1'')) = ''Result: 1'' \<and>
   prepare ''JSON: Result: 1'' = ''1''"
  by code_simp

text \<open>
  Claim C9, amended. The prefix strip goes through the list of phrases once, in order,
  and removes a phrase when it starts the text at that moment, upper and lower case
  taken as equal, stripping whitespace after each removal. It removes exactly one phrase,
  the first of the list that starts the stripped input, when no phrase listed behind
  that one starts what is left; and it leaves a text that no phrase starts as it is,
  apart from the stripping of whitespace.
\<close>

theorem prefix_strip_once:
  assumes "remove_first_prefix common_prefixes (strip text0) = (text', later)"
    and "\<forall>q\<in>set later. \<not> startswith (lower text') (lower q)"
  shows "prepare text0 = text' \<and>
         ((\<forall>q\<in>set common_prefixes. \<not> startswith (lower (strip text0)) (lower q))
            \<longrightarrow> text' = strip text0)"
proof -
  have "prepare text0 = strip_prefixes later text'"
    unfolding prepare_def using assms(1) by (rule strip_prefixes_later)
  also have "\<dots> = text'"
    using assms(2) by (rule strip_prefixes_none)
  finally have "prepare text0 = text'" .
  moreover have "text' = strip text0"
    if "\<forall>q\<in>set common_prefixes. \<not> startswith (lower (strip text0)) (lower q)"
    using remove_first_prefix_none [OF that] assms(1) by simp
  ultimately show ?thesis
    by blast
qed

theorem prefix_strip_once_witness:
  \<open>prepare ''  here is the json: {"a": 1}'' = ''{"a": 1}''\<close>
proof -
  have r: \<open>remove_first_prefix common_prefixes (strip ''  here is the json: {"a": 1}'') =
      (''{"a": 1}'', [''The JSON is:'', ''JSON:'', ''Result:'', ''Output:'', ''Answer:''])\<close>
    by code_simp
  have n: \<open>\<forall>q\<in>set [''The JSON is:'', ''JSON:'', ''Result:'', ''Output:'', ''Answer:''].
      \<not> startswith (lower ''{"a": 1}'') (lower q)\<close>
    by code_simp
  from prefix_strip_once [OF r n] show ?thesis
    by simp
qed

end
